theory Spec2Isabelle
  imports Main "HOL-Library.Word"
begin

section \<open>The timed cache (internal/pokecache/pokecache.go)\<close>

text \<open>
  Time is the reading of Go's monotonic clock, in nanoseconds, as an integer:
  \<^verbatim>\<open>time.Now()\<close> carries such a reading and \<^verbatim>\<open>time.Since\<close> subtracts two of them.
  A \<^verbatim>\<open>time.Duration\<close> is a signed 64-bit count of nanoseconds whose subtraction saturates;
  the model uses unbounded integers, which agrees with the code for every pair of readings
  less than 2^63 nanoseconds (about 292 years) apart.

  A \<^verbatim>\<open>[]byte\<close> is a list of bytes; the nil slice and the empty slice are both the
  empty list (the code never compares a slice with nil).
\<close>

type_synonym byte = "8 word"

record cacheEntry =
  createdAt :: int
  val :: "byte list"

text \<open>
  The struct \<^verbatim>\<open>Cache\<close>. The field \<^verbatim>\<open>mu\<close> (the reader/writer lock) is not part of the
  state: every method holds it for its whole body, so the bodies run one after another and
  each is modelled as one step on the map. The map is the one \<^verbatim>\<open>NewCache\<close> makes and is
  never nil: the repository builds every cache with \<^verbatim>\<open>NewCache\<close>, and no method assigns
  the field.
\<close>

record Cache =
  cache :: "string \<Rightarrow> cacheEntry option"

text \<open>
  \<^verbatim>\<open>Add\<close>; \<open>now\<close> is what \<^verbatim>\<open>time.Now()\<close> returns inside the call. The clock is read
  after \<^verbatim>\<open>Lock\<close>, so the readings of successive \<^verbatim>\<open>Add\<close> calls follow the order in which
  the calls hold the lock.
\<close>

definition Add :: "int \<Rightarrow> Cache \<Rightarrow> string \<Rightarrow> byte list \<Rightarrow> Cache" where
  "Add now p key value =
     p\<lparr>cache := (cache p)(key \<mapsto> \<lparr>createdAt = now, val = value\<rparr>)\<rparr>"

text \<open>
  \<^verbatim>\<open>Get\<close>: the two results of the Go method, and the cache as the call leaves it
  (the method has a pointer receiver).
\<close>

definition Get :: "Cache \<Rightarrow> string \<Rightarrow> (byte list \<times> bool) \<times> Cache" where
  "Get p key =
     (case cache p key of
        None \<Rightarrow> (([], False), p)
      | Some entry \<Rightarrow> ((val entry, True), p))"

text \<open>
  The body of the inner loop of \<^verbatim>\<open>reapLoop\<close> for one key that \<^verbatim>\<open>range\<close> yields;
  \<open>now\<close> is the clock reading that \<^verbatim>\<open>time.Since\<close> takes for this entry.
  A key that is no longer in the map is not visited by Go; the model leaves the cache alone.
\<close>

definition reapEntry :: "int \<Rightarrow> string \<times> int \<Rightarrow> Cache \<Rightarrow> Cache" where
  "reapEntry interval visit p =
     (case visit of (key, now) \<Rightarrow>
        (case cache p key of
           None \<Rightarrow> p
         | Some entry \<Rightarrow>
             if now - createdAt entry > interval
             then p\<lparr>cache := (cache p)(key := None)\<rparr>
             else p))"

text \<open>
  One tick of the sweeper: the loop over the map between \<^verbatim>\<open>Lock\<close> and \<^verbatim>\<open>Unlock\<close>.
  Go leaves the order of \<^verbatim>\<open>range\<close> over a map unspecified, and the clock moves while
  the loop runs, so a tick takes the list \<open>scan\<close> of the keys in the order \<^verbatim>\<open>range\<close>
  yields them, each with the clock reading of its \<^verbatim>\<open>time.Since\<close>.
\<close>

definition reapTick :: "int \<Rightarrow> (string \<times> int) list \<Rightarrow> Cache \<Rightarrow> Cache" where
  "reapTick interval scan p = fold (reapEntry interval) scan p"

text \<open>\<^verbatim>\<open>range\<close> yields every key of the map once.\<close>

definition ranges_over :: "(string \<times> int) list \<Rightarrow> Cache \<Rightarrow> bool" where
  "ranges_over scan p = (distinct (map fst scan) \<and> set (map fst scan) = dom (cache p))"

text \<open>
  \<^verbatim>\<open>reapLoop\<close> never returns; the model runs the ticks of a finite prefix \<open>scans\<close> of
  the ticker's channel. \<^verbatim>\<open>time.NewTicker\<close> panics when the interval is not positive:
  that is the result \<open>None\<close>.
\<close>

definition reapLoop :: "int \<Rightarrow> (string \<times> int) list list \<Rightarrow> Cache \<Rightarrow> Cache option" where
  "reapLoop interval scans p =
     (if interval \<le> 0 then None else Some (fold (reapTick interval) scans p))"

text \<open>
  \<^verbatim>\<open>NewCache\<close> returns the empty cache; the sweeper it starts shows up as the ticks of
  a run (below).
\<close>

definition NewCache :: "int \<Rightarrow> Cache" where
  "NewCache interval = \<lparr>cache = Map.empty\<rparr>"

subsection \<open>Runs of a cache\<close>

text \<open>
  The lock serialises the bodies of \<^verbatim>\<open>Add\<close>, \<^verbatim>\<open>Get\<close> and the sweeper's tick, so a
  history of one cache is a list of events: the calls of its clients, each \<^verbatim>\<open>Add\<close> with
  the clock reading it stored, and the ticks of its sweeper.
\<close>

datatype event =
    EvAdd int string "byte list"
  | EvGet string
  | EvTick "(string \<times> int) list"

fun step :: "int \<Rightarrow> event \<Rightarrow> Cache \<Rightarrow> Cache" where
  "step interval (EvAdd now key value) p = Add now p key value"
| "step interval (EvGet key) p = snd (Get p key)"
| "step interval (EvTick scan) p = reapTick interval scan p"

definition run :: "int \<Rightarrow> event list \<Rightarrow> Cache \<Rightarrow> Cache" where
  "run interval evs p = fold (step interval) evs p"

text \<open>No event of the list is an \<^verbatim>\<open>Add\<close> of the key.\<close>

fun adds_key :: "string \<Rightarrow> event \<Rightarrow> bool" where
  "adds_key k (EvAdd now key value) = (key = k)"
| "adds_key k (EvGet key) = False"
| "adds_key k (EvTick scan) = False"

definition never_added :: "string \<Rightarrow> event list \<Rightarrow> bool" where
  "never_added k evs = (list_all (\<lambda>e. \<not> adds_key k e) evs)"


fun is_tick :: "event \<Rightarrow> bool" where
  "is_tick (EvAdd now key value) = False"
| "is_tick (EvGet key) = False"
| "is_tick (EvTick scan) = True"

text \<open>The clock readings that the \<^verbatim>\<open>Add\<close> calls of a history store, in order.\<close>

fun add_times :: "event list \<Rightarrow> int list" where
  "add_times [] = []"
| "add_times (EvAdd now key value # evs) = now # add_times evs"
| "add_times (EvGet key # evs) = add_times evs"
| "add_times (EvTick scan # evs) = add_times evs"

text \<open>The states a history goes through, the first one included.\<close>

fun states :: "int \<Rightarrow> event list \<Rightarrow> Cache \<Rightarrow> Cache list" where
  "states interval [] p = [p]"
| "states interval (e # evs) p = p # states interval evs (step interval e p)"

text \<open>
  The \<^verbatim>\<open>createdAt\<close> stamps of one key along a history: one for each state in which the
  key has an entry.
\<close>

definition createdAt_history :: "int \<Rightarrow> string \<Rightarrow> event list \<Rightarrow> Cache \<Rightarrow> int list" where
  "createdAt_history interval k evs p =
     map createdAt (List.map_filter (\<lambda>q. cache q k) (states interval evs p))"



text \<open>
  The ticker that \<^verbatim>\<open>reapLoop\<close> creates at time \<open>t0\<close> with \<^verbatim>\<open>time.NewTicker(interval)\<close>
  delivers its \<open>n\<close>-th tick one interval after the one before.
\<close>

definition tick_time :: "int \<Rightarrow> int \<Rightarrow> nat \<Rightarrow> int" where
  "tick_time t0 interval n = t0 + int n * interval"

subsection \<open>The cache with its sweeper\<close>

text \<open>The calls of the clients of a cache.\<close>

datatype call =
    CallAdd int string "byte list"
  | CallGet string

fun client :: "call \<Rightarrow> event" where
  "client (CallAdd now key value) = EvAdd now key value"
| "client (CallGet key) = EvGet key"

text \<open>
  The cache together with the goroutine that \<^verbatim>\<open>NewCache\<close> starts. The loop in \<^verbatim>\<open>reapLoop\<close>
  keeps nothing between two iterations but the ticker, so its run is cut at the deliveries of
  the ticker: a round is the list of calls that the clients make before the next delivery,
  and then the iteration of \<^verbatim>\<open>reapLoop\<close> for that delivery, with the scan of its
  \<^verbatim>\<open>range\<close>. The result is \<open>None\<close> when \<^verbatim>\<open>reapLoop\<close> panics.
\<close>

fun system :: "int \<Rightarrow> (call list \<times> (string \<times> int) list) list \<Rightarrow> Cache \<Rightarrow> Cache option" where
  "system interval [] p = reapLoop interval [] p"
| "system interval ((calls, scan) # rounds) p =
     (case reapLoop interval [scan] (run interval (map client calls) p) of
        None \<Rightarrow> None
      | Some q \<Rightarrow> system interval rounds q)"




section \<open>The fetch layer (package main)\<close>

text \<open>A Go \<^verbatim>\<open>error\<close> value, by its message.\<close>

datatype error = Error string

text \<open>
  \<^verbatim>\<open>strings.TrimSpace(url) == ""\<close>: the string, read as UTF-8, holds white space only.
  \<^verbatim>\<open>TrimSpace\<close> removes the runes of \<^verbatim>\<open>unicode.IsSpace\<close> from both ends: tab, line feed,
  vertical tab, form feed, carriage return, space, U+0085, U+00A0, U+1680, U+2000 to U+200A,
  U+2028, U+2029, U+202F, U+205F and U+3000. A byte that starts no valid encoding decodes to
  U+FFFD, which is not white space. What is left is empty exactly when every rune is one of
  these.
\<close>

fun TrimSpace_empty :: "string \<Rightarrow> bool" where
  "TrimSpace_empty [] = True"
| "TrimSpace_empty (c # cs) =
     (let b = (of_char c :: nat) in
      if b = 9 \<or> b = 10 \<or> b = 11 \<or> b = 12 \<or> b = 13 \<or> b = 32 then TrimSpace_empty cs
      else if b = 0xC2 then
        (case cs of
           d # ds \<Rightarrow>
             ((of_char d :: nat) = 0x85 \<or> (of_char d :: nat) = 0xA0) \<and> TrimSpace_empty ds
         | [] \<Rightarrow> False)
      else if b = 0xE1 then
        (case cs of
           d # e # es \<Rightarrow>
             (of_char d :: nat) = 0x9A \<and> (of_char e :: nat) = 0x80 \<and> TrimSpace_empty es
         | _ \<Rightarrow> False)
      else if b = 0xE2 then
        (case cs of
           d # e # es \<Rightarrow>
             (((of_char d :: nat) = 0x80 \<and>
                 ((0x80 \<le> (of_char e :: nat) \<and> (of_char e :: nat) \<le> 0x8A) \<or>
                  (of_char e :: nat) = 0xA8 \<or> (of_char e :: nat) = 0xA9 \<or>
                  (of_char e :: nat) = 0xAF)) \<or>
              ((of_char d :: nat) = 0x81 \<and> (of_char e :: nat) = 0x9F)) \<and>
             TrimSpace_empty es
         | _ \<Rightarrow> False)
      else if b = 0xE3 then
        (case cs of
           d # e # es \<Rightarrow>
             (of_char d :: nat) = 0x80 \<and> (of_char e :: nat) = 0x80 \<and> TrimSpace_empty es
         | _ \<Rightarrow> False)
      else False)"

text \<open>
  What \<^verbatim>\<open>http.Get\<close> hands back when it returns no error: the status code, the status
  line, and the outcome of \<^verbatim>\<open>io.ReadAll\<close> on the body, which returns the bytes it has read
  together with the error that stopped it, if any.
\<close>

record Response =
  StatusCode :: int
  Status :: string
  Body :: "byte list \<times> error option"

record config =
  Url :: string
  Next :: string
  Previous :: string
  Cache :: Cache

text \<open>
  \<^verbatim>\<open>fetchData\<close>. The network is the parameter \<open>http_Get\<close> (the result of \<^verbatim>\<open>http.Get\<close> for
  a URL: an error or a response), the clock is \<open>now\<close>. The function returns the pair of
  results of the Go function, \<open>Inl\<close> for a non-nil error (the bytes are empty then), and
  the configuration with the cache as the call leaves it.
\<close>

definition fetchData ::
  "(string \<Rightarrow> error + Response) \<Rightarrow> int \<Rightarrow> string \<Rightarrow> config \<Rightarrow> (error + byte list) \<times> config" where
  "fetchData http_Get now url c =
     (if TrimSpace_empty url then (Inl (Error ''Invalid input''), c)
      else
        let ((decodedData, ok), q) = Get (Cache c) url in
        if ok then (Inr decodedData, c\<lparr>Cache := q\<rparr>)
        else
          (case http_Get url of
             Inl err \<Rightarrow> (Inl err, c\<lparr>Cache := q\<rparr>)
           | Inr res \<Rightarrow>
               if StatusCode res \<noteq> 200
               then (Inl (Error (''failed to fetch data: '' @ Status res)), c\<lparr>Cache := q\<rparr>)
               else
                 (case Body res of
                    (decodedData, err) \<Rightarrow>
                      let c' = c\<lparr>Cache := Add now q url decodedData\<rparr> in
                      (case err of
                         Some e \<Rightarrow> (Inl e, c')
                       | None \<Rightarrow> (Inr decodedData, c')))))"

record Stat =
  Name :: string
  Url :: string

record StatDetail =
  BaseStat :: int
  Stat :: Stat

record Type =
  Name :: string
  Url :: string

record TypeDetails =
  Slot :: int
  Type :: Type

record PokemonType =
  Name :: string
  Height :: int
  Weight :: int
  Stats :: "StatDetail list"
  Types :: "TypeDetails list"
  BaseExperience :: int

text \<open>
  \<^verbatim>\<open>rand.IntN(n)\<close> panics when \<open>n \<le> 0\<close> (the result \<open>None\<close>) and otherwise returns a
  number of the half-open interval from 0 to \<open>n\<close>; \<open>draw\<close> is the number the random source
  gives, and every number of the interval is the result for some \<open>draw\<close>.
\<close>

definition IntN :: "int \<Rightarrow> int \<Rightarrow> int option" where
  "IntN draw n = (if n \<le> 0 then None else Some (draw mod n))"

text \<open>How a call ends: it panics, or it returns its \<^verbatim>\<open>error\<close> (\<open>None\<close> for nil).\<close>

datatype outcome = Panic | Return "error option"

text \<open>
  \<^verbatim>\<open>catchPokemon\<close>. \<open>Unmarshal\<close> is \<^verbatim>\<open>json.Unmarshal\<close> into a zero \<^verbatim>\<open>PokemonType\<close>: an
  error, or the decoded value. The state is the configuration and the global map
  \<^verbatim>\<open>pokeDex\<close>; what the function prints is not modelled. \<^verbatim>\<open>BaseExperience\<close> is a 64-bit
  \<^verbatim>\<open>int\<close>; the subtraction and the division are reached only with
  \<open>0 \<le> chance < baseExperience\<close>, where neither overflows and Go's truncating division
  is \<open>div\<close>.
\<close>

definition catchPokemon ::
  "(string \<Rightarrow> error + Response) \<Rightarrow> (byte list \<Rightarrow> error + PokemonType) \<Rightarrow> int \<Rightarrow> int \<Rightarrow>
   string \<Rightarrow> config \<Rightarrow> (string \<Rightarrow> PokemonType option) \<Rightarrow>
   outcome \<times> config \<times> (string \<Rightarrow> PokemonType option)" where
  "catchPokemon http_Get Unmarshal draw now p c pokeDex =
     (let url = config.Url c @ ''pokemon/'' @ p in
      case fetchData http_Get now url c of
        (Inl err, c') \<Rightarrow> (Return (Some err), c', pokeDex)
      | (Inr decodedData, c') \<Rightarrow>
          (case Unmarshal decodedData of
             Inl err \<Rightarrow> (Return (Some err), c', pokeDex)
           | Inr response \<Rightarrow>
               let baseExperience = BaseExperience response in
               (case IntN draw baseExperience of
                  None \<Rightarrow> (Panic, c', pokeDex)
                | Some chance \<Rightarrow>
                    let willGotCaught = baseExperience - chance in
                    if willGotCaught > baseExperience div 2
                    then (Return None, c', pokeDex(p \<mapsto> response))
                    else (Return None, c', pokeDex))))"

section \<open>Add and Get\<close>

lemma cache_Add: "cache (Add now p key value) = (cache p)(key \<mapsto> \<lparr>createdAt = now, val = value\<rparr>)"
  by (simp add: Add_def)

lemma Get_Some: "cache p key = Some entry \<Longrightarrow> Get p key = ((val entry, True), p)"
  by (simp add: Get_def)

lemma Get_None: "cache p key = None \<Longrightarrow> Get p key = (([], False), p)"
  by (simp add: Get_def)

text \<open>
  C1. For every key and value, \<^verbatim>\<open>Add(k, v)\<close> followed at once by \<^verbatim>\<open>Get(k)\<close>, with no
  tick of the sweeper between them, returns \<open>(v, true)\<close>, whatever the cache held before
  and whatever the clock read.
\<close>

theorem Add_then_Get: "fst (Get (Add now p k v) k) = (v, True)"
  by (simp add: Get_Some cache_Add)

text \<open>
  C5. Re-adding a key is last-write-wins: after \<^verbatim>\<open>Add(k, v); Add(k, v)\<close> a \<^verbatim>\<open>Get(k)\<close>
  still returns \<open>(v, true)\<close>, and after \<^verbatim>\<open>Add(k, v); Add(k, v2)\<close> it returns
  \<open>(v2, true)\<close>.
\<close>

theorem Add_last_write_wins:
  "fst (Get (Add t2 (Add t1 p k v) k v) k) = (v, True) \<and>
   fst (Get (Add t2 (Add t1 p k v) k v2) k) = (v2, True)"
  by (simp add: Get_Some cache_Add)

section \<open>The sweeper\<close>

lemma reapLoop_run:
  assumes "0 < interval"
  shows "reapLoop interval scans p = Some (run interval (map EvTick scans) p)"
proof -
  have "(\<lambda>scan. step interval (EvTick scan)) = reapTick interval"
    by (intro ext) simp
  with assms show ?thesis
    by (simp add: reapLoop_def run_def fold_map comp_def)
qed

lemma reapLoop_panics: "interval \<le> 0 \<Longrightarrow> reapLoop interval scans p = None"
  by (simp add: reapLoop_def)

lemma cache_reapEntry:
  "cache (reapEntry I (key, now) p) k =
     (if k = key then
        (case cache p key of None \<Rightarrow> None
         | Some e \<Rightarrow> if I < now - createdAt e then None else Some e)
      else cache p k)"
  by (simp add: reapEntry_def split: option.splits)

lemma cache_reapTick:
  "cache (reapTick I scan p) k =
     (case cache p k of None \<Rightarrow> None
      | Some e \<Rightarrow> if (\<exists>t. (k, t) \<in> set scan \<and> I < t - createdAt e) then None else Some e)"
proof (induction scan arbitrary: p)
  case Nil
  show ?case by (simp add: reapTick_def split: option.splits)
next
  case (Cons x scan)
  obtain key now where x: "x = (key, now)" by (cases x)
  have unfold: "reapTick I ((key, now) # scan) p = reapTick I scan (reapEntry I (key, now) p)"
    by (simp add: reapTick_def)
  show ?case
    unfolding x unfold Cons.IH cache_reapEntry
    by (auto split: option.splits)
qed

lemma reapTick_only_removes:
  "cache (reapTick I scan p) k = None \<or> cache (reapTick I scan p) k = cache p k"
  by (simp add: cache_reapTick split: option.splits)

lemma cache_reapTick_reading:
  assumes "ranges_over scan p"
  shows "cache (reapTick I scan p) k =
     (case cache p k of None \<Rightarrow> None
      | Some e \<Rightarrow> if (\<exists>t. map_of scan k = Some t \<and> I < t - createdAt e) then None else Some e)"
proof -
  have "distinct (map fst scan)" using assms by (simp add: ranges_over_def)
  then show ?thesis
    by (simp add: cache_reapTick split: option.splits)
qed

lemma ranged_reading:
  assumes "ranges_over scan p" "cache p k = Some e"
  shows "\<exists>t. map_of scan k = Some t"
proof -
  from assms have "k \<in> fst ` set scan" by (auto simp: ranges_over_def)
  then have "map_of scan k \<noteq> None" by (simp add: map_of_eq_None_iff)
  then show ?thesis by blast
qed

text \<open>
  C2 (as amended). One tick of the sweeper removes exactly the entries that are expired at
  the clock reading the tick takes for them. \<^verbatim>\<open>reapLoop\<close> calls \<^verbatim>\<open>time.Since\<close> once for
  every entry, so a tick has one reading for each key. After a tick that ranges over the
  map, the map is the map before it restricted to the entries whose own reading minus
  \<open>createdAt\<close> is at most the interval: an entry whose age at its reading exceeds the
  interval is removed, and every other entry is kept as it was, for every order in which
  \<^verbatim>\<open>range\<close> yields the keys. When the tick takes the same reading \<open>now\<close> for every entry,
  the map afterwards is the map before restricted to the entries with
  \<open>now - createdAt \<le> interval\<close>.
\<close>

theorem reapTick_removes_by_reading:
  assumes "ranges_over scan p"
  shows "cache (reapTick interval scan p) =
           cache p |` {k. \<exists>e t. cache p k = Some e \<and> map_of scan k = Some t \<and>
                                 t - createdAt e \<le> interval} \<and>
         (\<forall>k e. cache p k = Some e \<longrightarrow>
            (\<exists>t. map_of scan k = Some t \<and>
                 cache (reapTick interval scan p) k =
                   (if t - createdAt e > interval then None else Some e))) \<and>
         (list_all (\<lambda>t. t = now) (map snd scan) \<longrightarrow>
            cache (reapTick interval scan p) =
              cache p |` {k. \<exists>e. cache p k = Some e \<and> now - createdAt e \<le> interval})"
proof (intro conjI allI impI)
  show "cache (reapTick interval scan p) =
           cache p |` {k. \<exists>e t. cache p k = Some e \<and> map_of scan k = Some t \<and>
                                 t - createdAt e \<le> interval}"
  proof
    fix k
    show "cache (reapTick interval scan p) k =
           (cache p |` {k. \<exists>e t. cache p k = Some e \<and> map_of scan k = Some t \<and>
                                 t - createdAt e \<le> interval}) k"
    proof (cases "cache p k")
      case None
      then show ?thesis by (simp add: cache_reapTick_reading [OF assms] restrict_map_def)
    next
      case (Some e)
      from ranged_reading [OF assms Some] obtain t where "map_of scan k = Some t" by blast
      with Some show ?thesis
        by (simp add: cache_reapTick_reading [OF assms] restrict_map_def not_less)
    qed
  qed
next
  fix k e
  assume e: "cache p k = Some e"
  from ranged_reading [OF assms e] obtain t where t: "map_of scan k = Some t" by blast
  with e have "cache (reapTick interval scan p) k =
                   (if t - createdAt e > interval then None else Some e)"
    by (simp add: cache_reapTick_reading [OF assms])
  with t show "\<exists>t. map_of scan k = Some t \<and>
                 cache (reapTick interval scan p) k =
                   (if t - createdAt e > interval then None else Some e)"
    by blast
next
  assume one: "list_all (\<lambda>t. t = now) (map snd scan)"
  show "cache (reapTick interval scan p) =
              cache p |` {k. \<exists>e. cache p k = Some e \<and> now - createdAt e \<le> interval}"
  proof
    fix k
    show "cache (reapTick interval scan p) k =
              (cache p |` {k. \<exists>e. cache p k = Some e \<and> now - createdAt e \<le> interval}) k"
    proof (cases "cache p k")
      case None
      then show ?thesis by (simp add: cache_reapTick_reading [OF assms] restrict_map_def)
    next
      case (Some e)
      from ranged_reading [OF assms Some] obtain t where t: "map_of scan k = Some t" by blast
      then have "(k, t) \<in> set scan" by (rule map_of_SomeD)
      with one have "t = now" by (force simp: list_all_iff)
      with Some t show ?thesis
        by (simp add: cache_reapTick_reading [OF assms] restrict_map_def not_less)
    qed
  qed
qed

theorem reapTick_removes_by_reading_witness:
  "ranges_over [(''a'', 5), (''b'', 7)]
     \<lparr>cache = [''a'' \<mapsto> \<lparr>createdAt = 0, val = [1]\<rparr>, ''b'' \<mapsto> \<lparr>createdAt = 1, val = [2]\<rparr>]\<rparr> \<and>
   cache (reapTick 5 [(''a'', 5), (''b'', 7)]
     \<lparr>cache = [''a'' \<mapsto> \<lparr>createdAt = 0, val = [1]\<rparr>, ''b'' \<mapsto> \<lparr>createdAt = 1, val = [2]\<rparr>]\<rparr>) ''a'' =
     Some \<lparr>createdAt = 0, val = [1]\<rparr> \<and>
   cache (reapTick 5 [(''a'', 5), (''b'', 7)]
     \<lparr>cache = [''a'' \<mapsto> \<lparr>createdAt = 0, val = [1]\<rparr>, ''b'' \<mapsto> \<lparr>createdAt = 1, val = [2]\<rparr>]\<rparr>) ''b'' = None \<and>
   ranges_over [(''b'', 10), (''a'', 10)]
     \<lparr>cache = [''a'' \<mapsto> \<lparr>createdAt = 0, val = [1]\<rparr>, ''b'' \<mapsto> \<lparr>createdAt = 5, val = [2]\<rparr>]\<rparr> \<and>
   list_all (\<lambda>t. t = 10) (map snd [(''b'', 10::int), (''a'', 10)]) \<and>
   cache (reapTick 5 [(''b'', 10), (''a'', 10)]
     \<lparr>cache = [''a'' \<mapsto> \<lparr>createdAt = 0, val = [1]\<rparr>, ''b'' \<mapsto> \<lparr>createdAt = 5, val = [2]\<rparr>]\<rparr>) ''a'' = None \<and>
   cache (reapTick 5 [(''b'', 10), (''a'', 10)]
     \<lparr>cache = [''a'' \<mapsto> \<lparr>createdAt = 0, val = [1]\<rparr>, ''b'' \<mapsto> \<lparr>createdAt = 5, val = [2]\<rparr>]\<rparr>) ''b'' =
     Some \<lparr>createdAt = 5, val = [2]\<rparr>"
proof -
  let ?p = "\<lparr>cache = [''a'' \<mapsto> \<lparr>createdAt = 0, val = [1::byte]\<rparr>, ''b'' \<mapsto> \<lparr>createdAt = 1, val = [2]\<rparr>]\<rparr>"
  let ?q = "\<lparr>cache = [''a'' \<mapsto> \<lparr>createdAt = 0, val = [1::byte]\<rparr>, ''b'' \<mapsto> \<lparr>createdAt = 5, val = [2]\<rparr>]\<rparr>"
  have h: "ranges_over [(''a'', 5), (''b'', 7)] ?p"
    by (auto simp: ranges_over_def)
  have g: "ranges_over [(''b'', 10), (''a'', 10)] ?q"
    by (auto simp: ranges_over_def)
  have one: "list_all (\<lambda>t. t = 10) (map snd [(''b'', 10::int), (''a'', 10)])" by simp
  have w1: "cache (reapTick 5 [(''a'', 5), (''b'', 7)] ?p) =
      cache ?p |` {k. \<exists>e t. cache ?p k = Some e \<and> map_of [(''a'', 5), (''b'', 7)] k = Some t \<and>
                            t - createdAt e \<le> 5}"
    by (rule conjunct1 [OF reapTick_removes_by_reading [OF h, of 5 0]])
  have w2: "cache (reapTick 5 [(''b'', 10), (''a'', 10)] ?q) =
      cache ?q |` {k. \<exists>e. cache ?q k = Some e \<and> 10 - createdAt e \<le> 5}"
    using reapTick_removes_by_reading [OF g, of 5 10] one by blast
  have a: "cache (reapTick 5 [(''a'', 5), (''b'', 7)] ?p) ''a'' = Some \<lparr>createdAt = 0, val = [1]\<rparr>"
    unfolding w1 by (simp add: restrict_map_def)
  have b: "cache (reapTick 5 [(''a'', 5), (''b'', 7)] ?p) ''b'' = None"
    unfolding w1 by (simp add: restrict_map_def)
  have c: "cache (reapTick 5 [(''b'', 10), (''a'', 10)] ?q) ''a'' = None"
    unfolding w2 by (simp add: restrict_map_def)
  have d: "cache (reapTick 5 [(''b'', 10), (''a'', 10)] ?q) ''b'' = Some \<lparr>createdAt = 5, val = [2]\<rparr>"
    unfolding w2 by (simp add: restrict_map_def)
  show ?thesis
    by (intro conjI) (rule h a b g one c d)+
qed

text \<open>
  C2 as the specification words it has one time \<open>now\<close> for a whole tick. A tick that reads the clock as 5 for
  the entry of \<open>a\<close> (stamped 0) and as 7 for the entry of \<open>b\<close> (stamped 1), with interval 5,
  keeps \<open>a\<close> and removes \<open>b\<close>: no single \<open>now\<close> gives that map.
\<close>

theorem reapTick_one_instant_counterexample:
  "ranges_over [(''a'', 5), (''b'', 7)]
     \<lparr>cache = [''a'' \<mapsto> \<lparr>createdAt = 0, val = [1]\<rparr>, ''b'' \<mapsto> \<lparr>createdAt = 1, val = [2]\<rparr>]\<rparr> \<and>
   \<not> (\<exists>now. cache (reapTick 5 [(''a'', 5), (''b'', 7)]
          \<lparr>cache = [''a'' \<mapsto> \<lparr>createdAt = 0, val = [1]\<rparr>, ''b'' \<mapsto> \<lparr>createdAt = 1, val = [2]\<rparr>]\<rparr>) =
        cache \<lparr>cache = [''a'' \<mapsto> \<lparr>createdAt = 0, val = [1]\<rparr>, ''b'' \<mapsto> \<lparr>createdAt = 1, val = [2]\<rparr>]\<rparr>
          |` {k. \<exists>e. cache \<lparr>cache = [''a'' \<mapsto> \<lparr>createdAt = 0, val = [1]\<rparr>, ''b'' \<mapsto> \<lparr>createdAt = 1, val = [2]\<rparr>]\<rparr> k = Some e \<and>
                     now - createdAt e \<le> 5})"
proof
  let ?p = "\<lparr>cache = [''a'' \<mapsto> \<lparr>createdAt = 0, val = [1::byte]\<rparr>, ''b'' \<mapsto> \<lparr>createdAt = 1, val = [2]\<rparr>]\<rparr>"
  show "ranges_over [(''a'', 5), (''b'', 7)] ?p"
    by (auto simp: ranges_over_def)
  show "\<not> (\<exists>now. cache (reapTick 5 [(''a'', 5), (''b'', 7)] ?p) =
        cache ?p |` {k. \<exists>e. cache ?p k = Some e \<and> now - createdAt e \<le> 5})"
  proof
    assume "\<exists>now. cache (reapTick 5 [(''a'', 5), (''b'', 7)] ?p) =
        cache ?p |` {k. \<exists>e. cache ?p k = Some e \<and> now - createdAt e \<le> 5}"
    then obtain now where eq: "cache (reapTick 5 [(''a'', 5), (''b'', 7)] ?p) =
        cache ?p |` {k. \<exists>e. cache ?p k = Some e \<and> now - createdAt e \<le> 5}"
      by blast
    have a: "cache (reapTick 5 [(''a'', 5), (''b'', 7)] ?p) ''a'' = Some \<lparr>createdAt = 0, val = [1]\<rparr>"
      by (simp add: reapTick_def reapEntry_def)
    have b: "cache (reapTick 5 [(''a'', 5), (''b'', 7)] ?p) ''b'' = None"
      by (simp add: reapTick_def reapEntry_def)
    from a have "now \<le> 5"
      unfolding eq by (simp add: restrict_map_def split: if_splits)
    moreover from b have "5 < now - 1"
      unfolding eq by (simp add: restrict_map_def split: if_splits)
    ultimately show False by simp
  qed
qed

section \<open>Histories\<close>

lemma snd_Get: "snd (Get p k) = p"
  by (simp add: Get_def split: option.splits)

lemma cache_NewCache: "cache (NewCache I) k = None"
  by (simp add: NewCache_def)

lemma run_Cons: "run I (e # evs) p = run I evs (step I e p)"
  by (simp add: run_def)


lemma cache_step_other:
  "\<not> adds_key k e \<Longrightarrow>
   cache (step I e p) k =
     (case cache p k of None \<Rightarrow> None
      | Some en \<Rightarrow> if (\<exists>t. I < t - createdAt en \<and> (\<exists>scan. e = EvTick scan \<and> (k, t) \<in> set scan)) then None else Some en)"
  by (cases e) (auto simp: cache_Add Get_def cache_reapTick split: option.splits)

lemma cache_run_never_added:
  "never_added k evs \<Longrightarrow>
   cache (run I evs p) k =
     (case cache p k of None \<Rightarrow> None
      | Some en \<Rightarrow>
          if (\<exists>scan t. EvTick scan \<in> set evs \<and> (k, t) \<in> set scan \<and> I < t - createdAt en)
          then None else Some en)"
proof (induction evs arbitrary: p)
  case Nil
  show ?case by (simp add: run_def split: option.splits)
next
  case (Cons e evs)
  have na: "\<not> adds_key k e" and rest: "never_added k evs"
    using Cons.prems by (simp_all add: never_added_def)
  have unfold: "run I (e # evs) p = run I evs (step I e p)"
    by (simp add: run_def)
  show ?case
    unfolding unfold Cons.IH [OF rest] cache_step_other [OF na]
    by (auto split: option.splits)
qed

lemma run_keeps_absent:
  "never_added k evs \<Longrightarrow> cache p k = None \<Longrightarrow> cache (run I evs p) k = None"
  by (simp add: cache_run_never_added)

lemma dom_step:
  "\<not> is_tick e \<Longrightarrow> dom (cache p) \<subseteq> dom (cache (step I e p))"
  by (cases e) (auto simp: cache_Add snd_Get)

lemma dom_run:
  "\<not> list_ex is_tick evs \<Longrightarrow> dom (cache p) \<subseteq> dom (cache (run I evs p))"
proof (induction evs arbitrary: p)
  case Nil
  show ?case by (simp add: run_def)
next
  case (Cons e evs)
  then have "dom (cache p) \<subseteq> dom (cache (step I e p))"
    and "dom (cache (step I e p)) \<subseteq> dom (cache (run I evs (step I e p)))"
    by (simp_all add: dom_step)
  then show ?case unfolding run_Cons by (rule subset_trans)
qed

text \<open>
  C4. \<^verbatim>\<open>Get\<close> of a key that was never added returns \<open>(nil, false)\<close>: on the cache that
  \<^verbatim>\<open>NewCache\<close> returns, and after every history that does not add the key. The same holds
  for a key whose entry a tick of the sweeper removed, until the key is added again. The
  result of \<^verbatim>\<open>Get\<close> is a pair of bytes and a boolean, with no error and no panic among its
  outcomes, and the boolean is false exactly when the key has no entry.
\<close>

theorem Get_absent:
  "fst (Get (NewCache I) k) = ([], False) \<and>
   (never_added k evs \<longrightarrow> fst (Get (run I evs (NewCache I)) k) = ([], False)) \<and>
   (cache p k \<noteq> None \<and> cache (reapTick I scan p) k = None \<and> never_added k evs' \<longrightarrow>
      fst (Get (run I evs' (reapTick I scan p)) k) = ([], False)) \<and>
   snd (fst (Get q k)) = (cache q k \<noteq> None)"
proof (intro conjI impI)
  show "fst (Get (NewCache I) k) = ([], False)"
    by (simp add: Get_None cache_NewCache)
  show "fst (Get (run I evs (NewCache I)) k) = ([], False)" if "never_added k evs"
    using that by (simp add: Get_None run_keeps_absent cache_NewCache)
  show "fst (Get (run I evs' (reapTick I scan p)) k) = ([], False)"
    if "cache p k \<noteq> None \<and> cache (reapTick I scan p) k = None \<and> never_added k evs'"
    using that by (simp add: Get_None run_keeps_absent)
  show "snd (fst (Get q k)) = (cache q k \<noteq> None)"
    by (simp add: Get_def split: option.splits)
qed

theorem Get_absent_witness:
  "never_added ''b'' [EvAdd 1 ''a'' [7], EvTick [(''a'', 3)], EvGet ''b''] \<and>
   fst (Get (run 5 [EvAdd 1 ''a'' [7], EvTick [(''a'', 3)], EvGet ''b''] (NewCache 5)) ''b'') = ([], False) \<and>
   cache (Add 1 (NewCache 5) ''a'' [7]) ''a'' \<noteq> None \<and>
   cache (reapTick 5 [(''a'', 7)] (Add 1 (NewCache 5) ''a'' [7])) ''a'' = None \<and>
   never_added ''a'' [EvGet ''a'', EvAdd 9 ''b'' [8]] \<and>
   fst (Get (run 5 [EvGet ''a'', EvAdd 9 ''b'' [8]]
          (reapTick 5 [(''a'', 7)] (Add 1 (NewCache 5) ''a'' [7]))) ''a'') = ([], False)"
proof -
  have a: "never_added ''b'' [EvAdd 1 ''a'' [7], EvTick [(''a'', 3)], EvGet ''b'']"
    by (simp add: never_added_def)
  have b: "cache (Add 1 (NewCache 5) ''a'' [7]) ''a'' \<noteq> None \<and>
           cache (reapTick 5 [(''a'', 7)] (Add 1 (NewCache 5) ''a'' [7])) ''a'' = None \<and>
           never_added ''a'' [EvGet ''a'', EvAdd 9 ''b'' [8]]"
    by (simp add: never_added_def reapTick_def reapEntry_def Add_def NewCache_def)
  from Get_absent [of 5 "''b''" "[EvAdd 1 ''a'' [7], EvTick [(''a'', 3)], EvGet ''b'']"
      "Add 1 (NewCache 5) ''a'' [7]" "[(''a'', 7)]" "[EvGet ''a'', EvAdd 9 ''b'' [8]]"]
    Get_absent [of 5 "''a''" "[]" "Add 1 (NewCache 5) ''a'' [7]" "[(''a'', 7)]"
      "[EvGet ''a'', EvAdd 9 ''b'' [8]]"] a b
  show ?thesis by simp
qed

text \<open>
  C7. Frame conditions. \<^verbatim>\<open>Get\<close> leaves the cache as it is. \<^verbatim>\<open>Add(k, v)\<close> leaves the
  entry of every other key as it is and removes no key. A tick creates and overwrites
  nothing: each entry is removed or left as it is. Along a history, the entry of a key that
  no \<^verbatim>\<open>Add\<close> names is removed or left as it is, and a history without ticks removes no key.
\<close>

theorem frame_conditions:
  "snd (Get p k) = p \<and>
   (k' \<noteq> k \<longrightarrow> cache (Add now p k v) k' = cache p k') \<and>
   dom (cache p) \<subseteq> dom (cache (Add now p k v)) \<and>
   (cache (reapTick I scan p) k = None \<or> cache (reapTick I scan p) k = cache p k) \<and>
   (never_added k evs \<longrightarrow> cache (run I evs p) k = None \<or> cache (run I evs p) k = cache p k) \<and>
   (\<not> list_ex is_tick evs' \<longrightarrow> dom (cache p) \<subseteq> dom (cache (run I evs' p)))"
proof (intro conjI impI)
  show "snd (Get p k) = p" by (rule snd_Get)
  show "cache (Add now p k v) k' = cache p k'" if "k' \<noteq> k"
    using that by (simp add: cache_Add)
  show "dom (cache p) \<subseteq> dom (cache (Add now p k v))"
    by (auto simp: cache_Add)
  show "cache (reapTick I scan p) k = None \<or> cache (reapTick I scan p) k = cache p k"
    by (rule reapTick_only_removes)
  show "cache (run I evs p) k = None \<or> cache (run I evs p) k = cache p k" if "never_added k evs"
    using that by (simp add: cache_run_never_added split: option.splits)
  show "dom (cache p) \<subseteq> dom (cache (run I evs' p))" if "\<not> list_ex is_tick evs'"
    using that by (rule dom_run)
qed

theorem frame_conditions_witness:
  "''b'' \<noteq> ''a'' \<and>
   cache (Add 2 (Add 1 (NewCache 5) ''a'' [7]) ''a'' [3]) ''b'' = cache (Add 1 (NewCache 5) ''a'' [7]) ''b'' \<and>
   never_added ''a'' [EvGet ''a'', EvTick [(''a'', 9)]] \<and>
   cache (run 5 [EvGet ''a'', EvTick [(''a'', 9)]] (Add 1 (NewCache 5) ''a'' [7])) ''a'' = None \<and>
   \<not> list_ex is_tick [EvAdd 2 ''b'' [1], EvGet ''a''] \<and>
   dom (cache (Add 1 (NewCache 5) ''a'' [7])) \<subseteq>
     dom (cache (run 5 [EvAdd 2 ''b'' [1], EvGet ''a''] (Add 1 (NewCache 5) ''a'' [7])))"
proof -
  have a: "''b'' \<noteq> ''a''" by simp
  have b: "never_added ''a'' [EvGet ''a'', EvTick [(''a'', 9)]]"
    by (simp add: never_added_def)
  have c: "\<not> list_ex is_tick [EvAdd 2 ''b'' [1], EvGet ''a'']" by simp
  have d: "cache (run 5 [EvGet ''a'', EvTick [(''a'', 9)]] (Add 1 (NewCache 5) ''a'' [7])) ''a'' = None"
    by (simp add: run_def reapTick_def reapEntry_def Add_def NewCache_def Get_def)
  from frame_conditions [of "Add 1 (NewCache 5) ''a'' [7]" "''a''" "''b''" 2 "[3]" 5 "[]"
      "[EvGet ''a'', EvTick [(''a'', 9)]]" "[EvAdd 2 ''b'' [1], EvGet ''a'']"] a b c d
  show ?thesis by simp
qed

section \<open>Expiry\<close>

lemma reapLoop_append:
  "reapLoop I (scans1 @ scans2) p =
     (case reapLoop I scans1 p of None \<Rightarrow> None | Some q \<Rightarrow> reapLoop I scans2 q)"
  by (simp add: reapLoop_def)

lemma system_no_calls: "system I (map (Pair []) scans) p = reapLoop I scans p"
proof (induction scans arbitrary: p)
  case Nil
  show ?case by simp
next
  case (Cons scan scans)
  have "reapLoop I ([scan] @ scans) p =
        (case reapLoop I [scan] p of None \<Rightarrow> None | Some q \<Rightarrow> reapLoop I scans q)"
    by (rule reapLoop_append)
  then show ?case by (simp add: Cons.IH run_def split: option.splits)
qed








lemma tick_time_Suc: "tick_time t0 I (Suc n) = tick_time t0 I n + I"
  by (simp add: tick_time_def algebra_simps)

lemma delivery_period:
  assumes "0 < I" "t0 \<le> T"
  shows "\<exists>m. tick_time t0 I m \<le> T \<and> T < tick_time t0 I (Suc m)"
proof -
  define d where "d = T - t0"
  define m where "m = nat (d div I)"
  have d0: "0 \<le> d" using assms by (simp add: d_def)
  then have q0: "0 \<le> d div I" using assms(1) by (simp add: pos_imp_zdiv_nonneg_iff)
  have md: "0 \<le> d mod I" "d mod I < I" using assms(1) by simp_all
  have lo: "I * (d div I) \<le> d" using mult_div_mod_eq [of I d] md(1) by linarith
  have hi: "d < I * (d div I) + I" using mult_div_mod_eq [of I d] md(2) by linarith
  have tt: "tick_time t0 I m = t0 + I * (d div I)"
    using q0 by (simp add: tick_time_def m_def algebra_simps)
  have "T = t0 + d" by (simp add: d_def)
  then have "tick_time t0 I m \<le> T" "T < tick_time t0 I (Suc m)"
    using lo hi tt by (simp_all add: tick_time_Suc)
  then show ?thesis by blast
qed



section \<open>Creation stamps\<close>

lemma history_Nil:
  "createdAt_history I k [] p = (case cache p k of None \<Rightarrow> [] | Some en \<Rightarrow> [createdAt en])"
  by (simp add: createdAt_history_def map_filter_simps split: option.splits)

lemma history_Cons:
  "createdAt_history I k (e # evs) p =
     (case cache p k of None \<Rightarrow> [] | Some en \<Rightarrow> [createdAt en]) @
     createdAt_history I k evs (step I e p)"
  by (simp add: createdAt_history_def map_filter_simps split: option.splits)

lemma step_stamp:
  assumes "cache (step I e p) k = Some en'"
  shows "cache p k = Some en' \<or> (\<exists>now v. e = EvAdd now k v \<and> createdAt en' = now)"
proof (cases e)
  case (EvAdd now key v)
  with assms show ?thesis by (cases "key = k") (auto simp: cache_Add)
next
  case (EvGet key)
  with assms show ?thesis by (simp add: snd_Get)
next
  case (EvTick scan)
  with assms reapTick_only_removes [of I scan p k] show ?thesis by auto
qed

lemma set_add_times_Cons: "set (add_times evs) \<subseteq> set (add_times (e # evs))"
  by (cases e) auto

lemma sorted_add_times_Cons: "sorted (add_times (e # evs)) \<Longrightarrow> sorted (add_times evs)"
  by (cases e) auto

lemma step_stamp_bound:
  assumes srt: "sorted (add_times (e # evs))"
    and old: "\<forall>en. cache p k = Some en \<longrightarrow> (\<forall>t\<in>set (add_times (e # evs)). createdAt en \<le> t)"
    and new: "cache (step I e p) k = Some en'"
  shows "\<forall>t\<in>set (add_times evs). createdAt en' \<le> t"
proof -
  from step_stamp [OF new] show ?thesis
  proof
    assume "cache p k = Some en'"
    with old set_add_times_Cons [of evs e] show ?thesis by blast
  next
    assume "\<exists>now v. e = EvAdd now k v \<and> createdAt en' = now"
    with srt show ?thesis by auto
  qed
qed

lemma history_set:
  "set (createdAt_history I k evs p) \<subseteq>
     (case cache p k of None \<Rightarrow> {} | Some en \<Rightarrow> {createdAt en}) \<union> set (add_times evs)"
proof (induction evs arbitrary: p)
  case Nil
  show ?case by (simp add: history_Nil split: option.splits)
next
  case (Cons e evs)
  have "(case cache (step I e p) k of None \<Rightarrow> {} | Some en \<Rightarrow> {createdAt en})
          \<subseteq> (case cache p k of None \<Rightarrow> {} | Some en \<Rightarrow> {createdAt en}) \<union> set (add_times (e # evs))"
  proof (cases "cache (step I e p) k")
    case None
    then show ?thesis by simp
  next
    case (Some en')
    from step_stamp [OF Some] show ?thesis using Some by auto
  qed
  with Cons.IH [of "step I e p"] set_add_times_Cons [of evs e]
  show ?case unfolding history_Cons by (auto split: option.splits)
qed

lemma history_sorted:
  assumes "sorted (add_times evs)"
    and "\<forall>en. cache p k = Some en \<longrightarrow> (\<forall>t\<in>set (add_times evs). createdAt en \<le> t)"
  shows "sorted (createdAt_history I k evs p)"
  using assms
proof (induction evs arbitrary: p)
  case Nil
  show ?case by (simp add: history_Nil split: option.splits)
next
  case (Cons e evs)
  let ?p' = "step I e p"
  have bound': "\<forall>en'. cache ?p' k = Some en' \<longrightarrow> (\<forall>t\<in>set (add_times evs). createdAt en' \<le> t)"
    using step_stamp_bound [OF Cons.prems(1) Cons.prems(2)] by blast
  have rest: "sorted (createdAt_history I k evs ?p')"
    by (rule Cons.IH [OF sorted_add_times_Cons [OF Cons.prems(1)] bound'])
  show ?case
  proof (cases "cache p k")
    case None
    with rest show ?thesis by (simp add: history_Cons)
  next
    case (Some en)
    have "createdAt en \<le> y" if y: "y \<in> set (createdAt_history I k evs ?p')" for y
    proof -
      from y history_set [of I k evs ?p']
      have "y \<in> (case cache ?p' k of None \<Rightarrow> {} | Some en \<Rightarrow> {createdAt en}) \<or> y \<in> set (add_times evs)"
        by auto
      then show ?thesis
      proof
        assume "y \<in> set (add_times evs)"
        with Cons.prems(2) Some set_add_times_Cons [of evs e] show ?thesis by blast
      next
        assume "y \<in> (case cache ?p' k of None \<Rightarrow> {} | Some en \<Rightarrow> {createdAt en})"
        then obtain en' where en': "cache ?p' k = Some en'" "y = createdAt en'"
          by (auto split: option.splits)
        from step_stamp [OF en'(1)] show ?thesis
        proof
          assume "cache p k = Some en'"
          with Some en'(2) show ?thesis by simp
        next
          assume "\<exists>now v. e = EvAdd now k v \<and> createdAt en' = now"
          then have "y \<in> set (add_times (e # evs))" using en'(2) by auto
          with Cons.prems(2) Some show ?thesis by blast
        qed
      qed
    qed
    with rest Some show ?thesis by (simp add: history_Cons)
  qed
qed

text \<open>
  C6. The \<^verbatim>\<open>createdAt\<close> stamp of a key never decreases over the history of a cache.
  \<^verbatim>\<open>Add\<close> replaces the stamp by the clock reading of the call; \<^verbatim>\<open>Get\<close> changes nothing;
  a tick removes the entry or leaves it as it is. So when the clock readings of the \<^verbatim>\<open>Add\<close>
  calls do not decrease (Go's monotonic clock), the stamps of the key along every history
  that starts from \<^verbatim>\<open>NewCache\<close> are sorted.
\<close>

theorem createdAt_monotone:
  "cache (Add now p k v) k = Some \<lparr>createdAt = now, val = v\<rparr> \<and>
   snd (Get p k') = p \<and>
   (cache (reapTick I scan p) k = None \<or> cache (reapTick I scan p) k = cache p k) \<and>
   (sorted (add_times evs) \<longrightarrow> sorted (createdAt_history I k evs (NewCache I)))"
proof (intro conjI impI)
  show "cache (Add now p k v) k = Some \<lparr>createdAt = now, val = v\<rparr>"
    by (simp add: cache_Add)
  show "snd (Get p k') = p" by (rule snd_Get)
  show "cache (reapTick I scan p) k = None \<or> cache (reapTick I scan p) k = cache p k"
    by (rule reapTick_only_removes)
  show "sorted (createdAt_history I k evs (NewCache I))" if "sorted (add_times evs)"
    using that by (rule history_sorted) (simp add: cache_NewCache)
qed

theorem createdAt_monotone_witness:
  "sorted (add_times [EvAdd 1 ''a'' [7], EvAdd 2 ''b'' [1], EvTick [(''a'', 9), (''b'', 9)], EvAdd 12 ''a'' [8]]) \<and>
   sorted (createdAt_history 5 ''a''
     [EvAdd 1 ''a'' [7], EvAdd 2 ''b'' [1], EvTick [(''a'', 9), (''b'', 9)], EvAdd 12 ''a'' [8]] (NewCache 5)) \<and>
   createdAt_history 5 ''a''
     [EvAdd 1 ''a'' [7], EvAdd 2 ''b'' [1], EvTick [(''a'', 9), (''b'', 9)], EvAdd 12 ''a'' [8]] (NewCache 5)
     = [1, 1, 12]"
proof -
  have a: "sorted (add_times [EvAdd 1 ''a'' [7], EvAdd 2 ''b'' [1], EvTick [(''a'', 9), (''b'', 9)], EvAdd 12 ''a'' [8]])"
    by simp
  have b: "createdAt_history 5 ''a''
     [EvAdd 1 ''a'' [7], EvAdd 2 ''b'' [1], EvTick [(''a'', 9), (''b'', 9)], EvAdd 12 ''a'' [8]] (NewCache 5)
     = [1, 1, 12]"
    by (simp add: createdAt_history_def map_filter_simps reapTick_def reapEntry_def Add_def
          NewCache_def Get_def)
  from createdAt_monotone [of 0 "NewCache 5" "''a''" "[]" "''a''" 5 "[]"
      "[EvAdd 1 ''a'' [7], EvAdd 2 ''b'' [1], EvTick [(''a'', 9), (''b'', 9)], EvAdd 12 ''a'' [8]]"] a b
  show ?thesis by simp
qed

section \<open>Fetching and catching\<close>

text \<open>
  C9. \<^verbatim>\<open>fetchData\<close> is not atomic on error. For a URL that is not blank and not in the
  cache, when the response has status 200 and reading its body fails, \<^verbatim>\<open>fetchData\<close> stores
  the bytes read so far under the URL before it looks at the read error: it returns the
  error, and the cache has changed. The next \<^verbatim>\<open>fetchData\<close> of the same URL, whatever the
  network then answers, returns those bytes as a cache hit with no error.
\<close>

theorem fetchData_caches_failed_read:
  assumes "\<not> TrimSpace_empty url"
    and "cache (Cache c) url = None"
    and "http_Get url = Inr res"
    and "StatusCode res = 200"
    and "Body res = (partial, Some e)"
  shows "fetchData http_Get now url c = (Inl e, c\<lparr>Cache := Add now (Cache c) url partial\<rparr>) \<and>
         cache (Cache (snd (fetchData http_Get now url c))) url =
           Some \<lparr>createdAt = now, val = partial\<rparr> \<and>
         fetchData http_Get' now' url (snd (fetchData http_Get now url c)) =
           (Inr partial, snd (fetchData http_Get now url c))"
proof (intro conjI)
  show first: "fetchData http_Get now url c = (Inl e, c\<lparr>Cache := Add now (Cache c) url partial\<rparr>)"
    using assms by (simp add: fetchData_def Get_None)
  show "cache (Cache (snd (fetchData http_Get now url c))) url =
           Some \<lparr>createdAt = now, val = partial\<rparr>"
    unfolding first by (simp add: cache_Add)
  have "Get (Add now (Cache c) url partial) url = ((partial, True), Add now (Cache c) url partial)"
    by (simp add: Get_def cache_Add)
  then show "fetchData http_Get' now' url (snd (fetchData http_Get now url c)) =
           (Inr partial, snd (fetchData http_Get now url c))"
    unfolding first using assms(1) by (simp add: fetchData_def)
qed

theorem fetchData_caches_failed_read_witness:
  "\<not> TrimSpace_empty ''u'' \<and>
   cache (Cache \<lparr>config.Url = ''r/'', Next = [], Previous = [], Cache = NewCache 5\<rparr>) ''u'' = None \<and>
   fetchData (\<lambda>u. Inr \<lparr>StatusCode = 200, Status = ''200 OK'', Body = ([123], Some (Error ''unexpected EOF''))\<rparr>)
     7 ''u'' \<lparr>config.Url = ''r/'', Next = [], Previous = [], Cache = NewCache 5\<rparr> =
     (Inl (Error ''unexpected EOF''),
      \<lparr>config.Url = ''r/'', Next = [], Previous = [], Cache = Add 7 (NewCache 5) ''u'' [123]\<rparr>) \<and>
   fetchData (\<lambda>u. Inl (Error ''no route to host'')) 8 ''u''
     \<lparr>config.Url = ''r/'', Next = [], Previous = [], Cache = Add 7 (NewCache 5) ''u'' [123]\<rparr> =
     (Inr [123], \<lparr>config.Url = ''r/'', Next = [], Previous = [], Cache = Add 7 (NewCache 5) ''u'' [123]\<rparr>)"
proof -
  let ?c = "\<lparr>config.Url = ''r/'', Next = [], Previous = [], Cache = NewCache 5\<rparr>"
  let ?res = "\<lparr>StatusCode = 200, Status = ''200 OK'', Body = ([123::byte], Some (Error ''unexpected EOF''))\<rparr>"
  have a: "\<not> TrimSpace_empty ''u''" by simp
  have b: "cache (Cache ?c) ''u'' = None" by (simp add: NewCache_def)
  have c: "(\<lambda>u::string. Inr ?res :: error + Response) ''u'' = Inr ?res" by simp
  have d: "StatusCode ?res = 200" by simp
  have e: "Body ?res = ([123], Some (Error ''unexpected EOF''))" by simp
  note w = fetchData_caches_failed_read [OF a b c d e, of 7 "\<lambda>u. Inl (Error ''no route to host'')" 8]
  have first: "fetchData (\<lambda>u. Inr ?res) 7 ''u'' ?c =
      (Inl (Error ''unexpected EOF''),
       \<lparr>config.Url = ''r/'', Next = [], Previous = [], Cache = Add 7 (NewCache 5) ''u'' [123]\<rparr>)"
    using w by simp
  from w a b show ?thesis unfolding first by simp
qed

text \<open>
  C10. When the fetch and the decoding succeed, \<^verbatim>\<open>catchPokemon\<close> passes the decoded
  \<^verbatim>\<open>base_experience\<close> to \<^verbatim>\<open>rand.IntN\<close>: if it is 0 or negative the call panics rather
  than returning an error, and if it is positive the call returns nil.
\<close>

theorem catchPokemon_panics:
  assumes "fetchData http_Get now (config.Url c @ ''pokemon/'' @ p) c = (Inr decodedData, c')"
    and "Unmarshal decodedData = Inr response"
  shows "(BaseExperience response \<le> 0 \<longrightarrow>
            fst (catchPokemon http_Get Unmarshal draw now p c pokeDex) = Panic) \<and>
         (0 < BaseExperience response \<longrightarrow>
            fst (catchPokemon http_Get Unmarshal draw now p c pokeDex) = Return None)"
  using assms by (simp add: catchPokemon_def IntN_def Let_def)

theorem catchPokemon_panics_witness:
  "fetchData (\<lambda>u. Inr \<lparr>StatusCode = 200, Status = ''200 OK'', Body = ([123, 125], None)\<rparr>) 7
     (config.Url \<lparr>config.Url = ''r/'', Next = [], Previous = [], Cache = NewCache 5\<rparr> @ ''pokemon/'' @ ''x'')
     \<lparr>config.Url = ''r/'', Next = [], Previous = [], Cache = NewCache 5\<rparr> =
     (Inr [123, 125],
      \<lparr>config.Url = ''r/'', Next = [], Previous = [], Cache = Add 7 (NewCache 5) ''r/pokemon/x'' [123, 125]\<rparr>) \<and>
   BaseExperience \<lparr>Name = [], Height = 0, Weight = 0, Stats = [], Types = [], BaseExperience = 0\<rparr> \<le> 0 \<and>
   fst (catchPokemon (\<lambda>u. Inr \<lparr>StatusCode = 200, Status = ''200 OK'', Body = ([123, 125], None)\<rparr>)
     (\<lambda>b. Inr \<lparr>Name = [], Height = 0, Weight = 0, Stats = [], Types = [], BaseExperience = 0\<rparr>)
     3 7 ''x'' \<lparr>config.Url = ''r/'', Next = [], Previous = [], Cache = NewCache 5\<rparr> Map.empty) = Panic \<and>
   0 < BaseExperience \<lparr>Name = ''x'', Height = 4, Weight = 60, Stats = [], Types = [], BaseExperience = 64\<rparr> \<and>
   fst (catchPokemon (\<lambda>u. Inr \<lparr>StatusCode = 200, Status = ''200 OK'', Body = ([123, 125], None)\<rparr>)
     (\<lambda>b. Inr \<lparr>Name = ''x'', Height = 4, Weight = 60, Stats = [], Types = [], BaseExperience = 64\<rparr>)
     3 7 ''x'' \<lparr>config.Url = ''r/'', Next = [], Previous = [], Cache = NewCache 5\<rparr> Map.empty) = Return None"
proof -
  let ?c = "\<lparr>config.Url = ''r/'', Next = [], Previous = [], Cache = NewCache 5\<rparr>"
  let ?c' = "\<lparr>config.Url = ''r/'', Next = [], Previous = [], Cache = Add 7 (NewCache 5) ''r/pokemon/x'' [123, 125]\<rparr>"
  let ?net = "\<lambda>u::string. Inr \<lparr>StatusCode = 200, Status = ''200 OK'', Body = ([123, 125::byte], None)\<rparr> :: error + Response"
  let ?zero = "\<lparr>Name = [], Height = 0, Weight = 0, Stats = [], Types = [], BaseExperience = 0\<rparr>"
  let ?pk = "\<lparr>Name = ''x'', Height = 4, Weight = 60, Stats = [], Types = [], BaseExperience = 64\<rparr>"
  have f: "fetchData ?net 7 (config.Url ?c @ ''pokemon/'' @ ''x'') ?c = (Inr [123, 125], ?c')"
    by (simp add: fetchData_def Get_def NewCache_def)
  have u0: "(\<lambda>b::byte list. Inr ?zero :: error + PokemonType) [123, 125] = Inr ?zero" by simp
  have u1: "(\<lambda>b::byte list. Inr ?pk :: error + PokemonType) [123, 125] = Inr ?pk" by simp
  from catchPokemon_panics [OF f u0, of 3 Map.empty] catchPokemon_panics [OF f u1, of 3 Map.empty] f
  show ?thesis by simp
qed

end
